theory Spec2Isabelle
  imports Main
begin

section \<open>Text primitives of the host language\<close>

text \<open>
  A JavaScript string is modelled as a \<^typ>\<open>string\<close>, one \<^typ>\<open>char\<close> per code unit; the
  model therefore covers the texts whose code units lie in the range 0..255.  The
  functions of this section are the built-ins the program calls on strings:
  the regular-expression class \<^verbatim>\<open>\s\<close>, the characters the dot does not match,
  \<^verbatim>\<open>String.prototype.trim\<close>, \<^verbatim>\<open>split(/\r?\n/)\<close>, \<^verbatim>\<open>Array.prototype.join\<close> and
  \<^verbatim>\<open>replace\<close> with a one-character global pattern.
\<close>

abbreviation LF :: char where "LF \<equiv> CHR 0x0A"
abbreviation CR :: char where "CR \<equiv> CHR 0x0D"
abbreviation DQ :: char where "DQ \<equiv> CHR 0x22"
abbreviation SQ :: char where "SQ \<equiv> CHR 0x27"
abbreviation BS :: char where "BS \<equiv> CHR 0x5C"

text \<open>The class \<^verbatim>\<open>\s\<close>: tab, line feed, vertical tab, form feed, carriage return, space and
  the no-break space.\<close>

definition is_space :: "char \<Rightarrow> bool" where
  "is_space c = (c = CHR 0x09 \<or> c = LF \<or> c = CHR 0x0B \<or> c = CHR 0x0C \<or> c = CR
                 \<or> c = CHR 0x20 \<or> c = CHR 0xA0)"

text \<open>The dot of a regular expression (no \<^verbatim>\<open>s\<close> flag) matches every character but a line
  terminator.\<close>

definition is_line_terminator :: "char \<Rightarrow> bool" where
  "is_line_terminator c = (c = LF \<or> c = CR)"

definition trim :: "string \<Rightarrow> string" where
  "trim s = rev (dropWhile is_space (rev (dropWhile is_space s)))"

text \<open>\<^verbatim>\<open>text.split(/\r?\n/)\<close>: a line ends at a line feed, and a carriage return right before
  that line feed belongs to the separator.  The result is never empty.\<close>

fun split_lines :: "string \<Rightarrow> string list" where
  "split_lines [] = [[]]"
| "split_lines (c # cs) =
     (if c = LF then [] # split_lines cs
      else if c = CR \<and> (case cs of [] \<Rightarrow> False | d # _ \<Rightarrow> d = LF) then split_lines cs
      else (case split_lines cs of [] \<Rightarrow> [[c]] | l # ls \<Rightarrow> (c # l) # ls))"

text \<open>\<^verbatim>\<open>xs.join(sep)\<close>.\<close>

fun join :: "string \<Rightarrow> string list \<Rightarrow> string" where
  "join sep [] = []"
| "join sep [l] = l"
| "join sep (l # m # ls) = l @ sep @ join sep (m # ls)"

text \<open>\<^verbatim>\<open>s.replace(/c/g, r)\<close> for a pattern of one literal character.\<close>

definition replace_all :: "char \<Rightarrow> string \<Rightarrow> string \<Rightarrow> string" where
  "replace_all c r s = concat (map (\<lambda>x. if x = c then r else [x]) s)"

section \<open>The section-scoped line patcher\<close>

text \<open>
  \<^verbatim>\<open>sectionHeaderRe = /^\s*\[([^\]]+)\]\s*$/\<close>.  The result is the first capture group
  of a match: leading white space, an opening bracket, a non-empty run without a closing
  bracket (the group), a closing bracket, and white space up to the end of the line.
  No step of this pattern has a second way to match, so the match is a function of the
  line.
\<close>

definition sectionHeaderRe :: "string \<Rightarrow> string option" where
  "sectionHeaderRe line =
     (case dropWhile is_space line of
        [] \<Rightarrow> None
      | c # r \<Rightarrow>
          if c = CHR ''['' then
            (let body = takeWhile (\<lambda>x. x \<noteq> CHR '']'') r;
                 rest = dropWhile (\<lambda>x. x \<noteq> CHR '']'') r
             in if body \<noteq> [] \<and> rest \<noteq> [] \<and> list_all is_space (tl rest)
                then Some body else None)
          else None)"

text \<open>
  The key is spliced into the pattern of \<^verbatim>\<open>keyRe\<close> after
  \<^verbatim>\<open>key.replace(/[.*+?^${}()|[\\]\\\\]/g, "\\$&")\<close>.  That replacement escapes a
  metacharacter only when two backslashes and a closing bracket follow it, so a key
  reaches the pattern as it is and the pattern reads it as a regular expression.  The
  model covers the keys made of characters that stand for themselves and of dots, each
  dot matching one character that is no line terminator; for a key with any other
  character that has a meaning in a pattern the patcher's result is \<^term>\<open>None\<close> (not
  modelled: the pattern may match other texts, or be refused when it is compiled).
\<close>

definition regex_meta :: "char \<Rightarrow> bool" where
  "regex_meta c = (c = BS \<or> c = CHR ''^'' \<or> c = CHR ''$'' \<or> c = CHR ''.'' \<or> c = CHR ''*''
                   \<or> c = CHR ''+'' \<or> c = CHR ''?'' \<or> c = CHR ''('' \<or> c = CHR '')''
                   \<or> c = CHR ''['' \<or> c = CHR '']'' \<or> c = CHR ''{'' \<or> c = CHR ''}''
                   \<or> c = CHR ''|'')"

text \<open>A key without any such character: the pattern matches the key itself and nothing
  else.\<close>

definition plain_key :: "string \<Rightarrow> bool" where
  "plain_key key = list_all (\<lambda>c. \<not> regex_meta c) key"

text \<open>A key of the model: every character is a dot or stands for itself.\<close>

definition pattern_key :: "string \<Rightarrow> bool" where
  "pattern_key key = list_all (\<lambda>c. c = CHR ''.'' \<or> \<not> regex_meta c) key"

text \<open>One character \<open>p\<close> of the key, read as a pattern, against one character \<open>c\<close> of the
  line.\<close>

definition keyAtom :: "char \<Rightarrow> char \<Rightarrow> bool" where
  "keyAtom p c = (if p = CHR ''.'' then \<not> is_line_terminator c else c = p)"

text \<open>
  The part of \<^verbatim>\<open>keyRe\<close> after the key: \<^verbatim>\<open>\s*=\s*([^#]*)(\s*(#.*)?)$\<close>, applied to
  the rest of the line; the result is the fourth group.  The greedy third group takes
  everything up to the first \<^verbatim>\<open>#\<close>, white space included, so the fourth group is
  empty or starts at that \<^verbatim>\<open>#\<close>; the dot must then reach the end of the line, which it
  does when no line terminator follows.
\<close>

definition keyRe_rest :: "string \<Rightarrow> string option" where
  "keyRe_rest r =
     (case dropWhile is_space r of
        [] \<Rightarrow> None
      | c # r2 \<Rightarrow>
          if c = CHR ''='' then
            (let tailComment = dropWhile (\<lambda>x. x \<noteq> CHR ''#'') (dropWhile is_space r2)
             in if list_all (\<lambda>x. \<not> is_line_terminator x) tailComment
                then Some tailComment else None)
          else None)"

text \<open>\<^verbatim>\<open>keyRe\<close> with the first group \<^verbatim>\<open>(\s*)\<close> holding the first \<open>n\<close> characters of
  the line: the second group matches as many characters as the key has, one by one, then
  comes the rest of the pattern.\<close>

definition keyRe_at :: "string \<Rightarrow> string \<Rightarrow> nat \<Rightarrow> (string \<times> string) option" where
  "keyRe_at key line n =
     (let rest = drop n line in
      if list_all2 keyAtom key (take (length key) rest) then
        (case keyRe_rest (drop (length key) rest) of
           None \<Rightarrow> None
         | Some tailComment \<Rightarrow> Some (take n line, tailComment))
      else None)"

text \<open>The greedy \<^verbatim>\<open>(\s*)\<close> tries the longest indentation first and gives characters back
  one at a time.\<close>

fun keyRe_from :: "string \<Rightarrow> string \<Rightarrow> nat \<Rightarrow> (string \<times> string) option" where
  "keyRe_from key line 0 = keyRe_at key line 0"
| "keyRe_from key line (Suc n) =
     (case keyRe_at key line (Suc n) of
        Some m \<Rightarrow> Some m
      | None \<Rightarrow> keyRe_from key line n)"

text \<open>\<^verbatim>\<open>lines[i].match(keyRe)\<close> for a key of the model: the groups 1 (indentation) and 4
  (trailing comment) of the match.\<close>

definition keyRe :: "string \<Rightarrow> string \<Rightarrow> (string \<times> string) option" where
  "keyRe key line = keyRe_from key line (length (takeWhile is_space line))"

text \<open>
  The loop of \<^verbatim>\<open>patchScalarInSection\<close> over the lines from index \<open>i\<close> on, with the
  current value of \<^verbatim>\<open>inSection\<close>; it returns the lines from \<open>i\<close> on as the loop leaves
  them, and \<^verbatim>\<open>patched\<close>.
\<close>

fun patchLoop :: "bool \<Rightarrow> string \<Rightarrow> string \<Rightarrow> string \<Rightarrow> string list \<Rightarrow> string list \<times> bool" where
  "patchLoop inSection targetHeader key newValToml [] = ([], False)"
| "patchLoop inSection targetHeader key newValToml (l # ls) =
     (case sectionHeaderRe l of
        Some hdr \<Rightarrow>
          apfst ((#) l) (patchLoop (trim hdr = targetHeader) targetHeader key newValToml ls)
      | None \<Rightarrow>
          if \<not> inSection then
            apfst ((#) l) (patchLoop inSection targetHeader key newValToml ls)
          else
            (case keyRe key l of
               Some (indent, tailComment) \<Rightarrow>
                 ((indent @ key @ '' = '' @ newValToml @ tailComment) # ls, True)
             | None \<Rightarrow>
                 if sectionHeaderRe l \<noteq> None then (l # ls, False)
                 else apfst ((#) l) (patchLoop inSection targetHeader key newValToml ls)))"

definition patchScalarInSection ::
  "string \<Rightarrow> string list \<Rightarrow> string \<Rightarrow> string \<Rightarrow> (string \<times> bool) option" where
  "patchScalarInSection text sectionPath key newValToml =
     (if \<not> pattern_key key then None
      else
        (let lines = split_lines text;
             inSection = (sectionPath = []);
             targetHeader = join ''.'' sectionPath
         in case patchLoop inSection targetHeader key newValToml lines of
              (lines', patched) \<Rightarrow> Some (join [LF] lines', patched)))"

section \<open>Values and the scalar literal serializer\<close>

text \<open>
  \<^verbatim>\<open>type Json = null | boolean | number | string | Json[] | { [k: string]: Json }\<close>.
  A number is finite or one of the three non-finite values; the finite numbers are a
  type parameter, and \<^verbatim>\<open>String(v)\<close> on them is a parameter \<open>numstr\<close> of the functions
  that call it.  An object is the list of its own properties in the order of
  \<^verbatim>\<open>Object.keys\<close>; \<^verbatim>\<open>obj[k]\<close> is \<^term>\<open>map_of\<close> on that list, \<^term>\<open>None\<close> standing
  for \<^verbatim>\<open>undefined\<close> (properties inherited from the prototype are not modelled).
\<close>

datatype 'n number = Finite 'n | NaN | Infinity | NegInfinity

datatype 'n json =
    JNull
  | JBool bool
  | JNum "'n number"
  | JStr string
  | JArr "'n json list"
  | JObj "(string \<times> 'n json) list"

definition quoteTomlString :: "string \<Rightarrow> string" where
  "quoteTomlString s = [DQ] @ replace_all DQ [BS, DQ] (replace_all BS [BS, BS] s) @ [DQ]"

text \<open>The result \<^term>\<open>None\<close> is the \<^verbatim>\<open>null\<close> the function returns for a value that is
  not a scalar.\<close>

fun valueToTomlScalar :: "('n \<Rightarrow> string) \<Rightarrow> 'n json \<Rightarrow> string option" where
  "valueToTomlScalar numstr JNull = Some ''null''"
| "valueToTomlScalar numstr (JBool b) = Some (if b then ''true'' else ''false'')"
| "valueToTomlScalar numstr (JNum (Finite n)) = Some (numstr n)"
| "valueToTomlScalar numstr (JNum _) = Some ''0''"
| "valueToTomlScalar numstr (JStr s) = Some (quoteTomlString s)"
| "valueToTomlScalar numstr _ = None"

text \<open>\<^verbatim>\<open>valueToTomlScalar(obj[k])\<close>: \<^verbatim>\<open>undefined\<close> passes every test of the function
  and yields \<^verbatim>\<open>null\<close>.\<close>

definition scalarOf :: "('n \<Rightarrow> string) \<Rightarrow> 'n json option \<Rightarrow> string option" where
  "scalarOf numstr v = (case v of None \<Rightarrow> None | Some x \<Rightarrow> valueToTomlScalar numstr x)"

section \<open>The tree walk\<close>

text \<open>\<^verbatim>\<open>new Set([...Object.keys(oldObj), ...Object.keys(newObj)])\<close>: the keys of both
  objects, each once, in the order of first occurrence.\<close>

definition keySet :: "(string \<times> 'a) list \<Rightarrow> (string \<times> 'a) list \<Rightarrow> string list" where
  "keySet oldObj newObj = rev (remdups (rev (map fst oldObj @ map fst newObj)))"

lemma size_map_of_table:
  "map_of kvs k = Some v \<Longrightarrow> size v < size_list (size_prod (\<lambda>_. 0) size) kvs"
  by (induction kvs) (auto split: if_splits)

text \<open>
  \<^verbatim>\<open>walkPatch\<close>.  The state of the loop over the keys is the pair
  \<^verbatim>\<open>(outText, patchedAny)\<close>, or \<^term>\<open>None\<close> once a call of the line patcher was outside
  the model.
\<close>

function walkPatch ::
  "('n \<Rightarrow> string) \<Rightarrow> string \<Rightarrow> (string \<times> 'n json) list \<Rightarrow> (string \<times> 'n json) list
     \<Rightarrow> string list \<Rightarrow> (string \<times> bool) option" where
  "walkPatch numstr text oldObj newObj pathAcc =
     fold (\<lambda>k st.
        case st of
          None \<Rightarrow> None
        | Some (outText, patchedAny) \<Rightarrow>
            (let oldVal = map_of oldObj k;
                 newVal = map_of newObj k;
                 newScalar = scalarOf numstr newVal;
                 oldScalar = scalarOf numstr oldVal
             in if newScalar \<noteq> None \<and> oldScalar \<noteq> None then
                  (case patchScalarInSection outText pathAcc k (the newScalar) of
                     None \<Rightarrow> None
                   | Some (t, patched) \<Rightarrow> Some (t, patchedAny \<or> patched))
                else
                  (case oldVal of
                     Some (JObj oldTab) \<Rightarrow>
                       (case newVal of
                          Some (JObj newTab) \<Rightarrow>
                            (case walkPatch numstr outText oldTab newTab (pathAcc @ [k]) of
                               None \<Rightarrow> None
                             | Some (t, patched) \<Rightarrow> Some (t, patchedAny \<or> patched))
                        | _ \<Rightarrow> Some (outText, patchedAny))
                   | _ \<Rightarrow> Some (outText, patchedAny))))
       (keySet oldObj newObj) (Some (text, False))"
  by pat_completeness auto
termination
  by (relation "measure (\<lambda>(numstr, text, oldObj, newObj, pathAcc).
                  size_list (size_prod (\<lambda>_. 0) size) oldObj)")
     (auto dest!: size_map_of_table [OF sym])

section \<open>The save decision\<close>

text \<open>
  \<^verbatim>\<open>toToml\<close>, with \<^verbatim>\<open>toml.stringify\<close> of the standard library as the parameter
  \<open>stringify\<close>: a value that is not an object is wrapped as \<^verbatim>\<open>{ value: data }\<close>.
\<close>

definition toToml :: "('n json \<Rightarrow> string) \<Rightarrow> 'n json \<Rightarrow> string" where
  "toToml stringify data =
     (case data of
        JObj _ \<Rightarrow> stringify data
      | _ \<Rightarrow> stringify (JObj [(''value'', data)]))"

text \<open>
  The part of \<^verbatim>\<open>handleSave\<close> that computes \<^verbatim>\<open>outText\<close> and \<^verbatim>\<open>preserved\<close>.
  \<^verbatim>\<open>toml.parse\<close> is the parameter \<open>parse\<close>, \<^term>\<open>None\<close> when it throws;
  \<open>originalText\<close> is \<^term>\<open>None\<close> when the payload has no such field.  The submitted
  \<open>data\<close> is a table at its root; for any other root, and when the walk leaves the model,
  the result is \<^term>\<open>None\<close> (not modelled).
\<close>

definition handleSave ::
  "(string \<Rightarrow> (string \<times> 'n json) list option) \<Rightarrow> ('n json \<Rightarrow> string) \<Rightarrow> ('n \<Rightarrow> string)
     \<Rightarrow> bool \<Rightarrow> string option \<Rightarrow> 'n json \<Rightarrow> (string \<times> bool) option" where
  "handleSave parse stringify numstr preserve originalText data =
     (if preserve \<and> originalText \<noteq> None \<and> originalText \<noteq> Some [] then
        (case parse (the originalText) of
           None \<Rightarrow> Some (toToml stringify data, False)
         | Some oldObj \<Rightarrow>
             (case data of
                JObj newObj \<Rightarrow>
                  (case walkPatch numstr (the originalText) oldObj newObj [] of
                     None \<Rightarrow> None
                   | Some result \<Rightarrow>
                       if snd result then Some (fst result, True)
                       else Some (toToml stringify data, False))
              | _ \<Rightarrow> None))
      else Some (toToml stringify data, False))"

section \<open>The relaxed-input normalizer\<close>

text \<open>The pieces of the patterns of \<^verbatim>\<open>looksLikeBareString\<close>: \<^verbatim>\<open>\d\<close>, \<^verbatim>\<open>[\d_]\<close>,
  \<^verbatim>\<open>[+-]?\<close>, \<^verbatim>\<open>\d{n}\<close> and a literal character; a piece applied to a string returns
  what is left of it.\<close>

definition is_digit :: "char \<Rightarrow> bool" where
  "is_digit c = (c \<in> set ''0123456789'')"

definition is_digit_us :: "char \<Rightarrow> bool" where
  "is_digit_us c = (is_digit c \<or> c = CHR ''_'')"

definition opt_sign :: "string \<Rightarrow> string" where
  "opt_sign s = (case s of [] \<Rightarrow> [] | c # r \<Rightarrow> if c = CHR ''+'' \<or> c = CHR ''-'' then r else s)"

fun digitsN :: "nat \<Rightarrow> string \<Rightarrow> string option" where
  "digitsN 0 s = Some s"
| "digitsN (Suc n) [] = None"
| "digitsN (Suc n) (c # s) = (if is_digit c then digitsN n s else None)"

definition lit :: "char \<Rightarrow> string \<Rightarrow> string option" where
  "lit c s = (case s of [] \<Rightarrow> None | x # r \<Rightarrow> if x = c then Some r else None)"

text \<open>\<^verbatim>\<open>/^(true|false)$/i\<close>: the flag \<^verbatim>\<open>i\<close> folds the case of the letters A to Z.\<close>

definition to_lower :: "char \<Rightarrow> char" where
  "to_lower c =
     (case map_of (zip ''ABCDEFGHIJKLMNOPQRSTUVWXYZ'' ''abcdefghijklmnopqrstuvwxyz'') c of
        None \<Rightarrow> c
      | Some l \<Rightarrow> l)"

definition boolRe :: "string \<Rightarrow> bool" where
  "boolRe s = (map to_lower s = ''true'' \<or> map to_lower s = ''false'')"

text \<open>\<^verbatim>\<open>/^[+-]?\d[\d_]*(\.\d[\d_]*)?([eE][+-]?\d+)?$/\<close>.  Each optional group starts with a
  character the piece before it cannot match, so the greedy choice is the only one.\<close>

definition numberRe :: "string \<Rightarrow> bool" where
  "numberRe s =
     (case opt_sign s of
        [] \<Rightarrow> False
      | d # r \<Rightarrow>
          is_digit d \<and>
          (let r1 = dropWhile is_digit_us r;
               r2 = (case r1 of
                       c # e # r' \<Rightarrow>
                         if c = CHR ''.'' \<and> is_digit e then dropWhile is_digit_us r' else r1
                     | _ \<Rightarrow> r1)
           in case r2 of
                [] \<Rightarrow> True
              | c # r3 \<Rightarrow>
                  (c = CHR ''e'' \<or> c = CHR ''E'') \<and> opt_sign r3 \<noteq> [] \<and> list_all is_digit (opt_sign r3)))"

text \<open>
  \<^verbatim>\<open>/^\d{4}-\d{2}-\d{2}(?:[ tT]\d{2}:\d{2}(?::\d{2}(?:\.\d{1,6})?)?(?:Z|[+-]\d{2}:\d{2})?)?$/\<close>,
  piece by piece: the date, hours and minutes, the optional seconds with their optional
  fraction of one to six digits, and the optional zone.
\<close>

definition dateRe_date :: "string \<Rightarrow> string option" where
  "dateRe_date s =
     Option.bind (Option.bind (Option.bind (Option.bind (digitsN 4 s) (lit (CHR ''-'')))
       (digitsN 2)) (lit (CHR ''-''))) (digitsN 2)"

definition dateRe_hm :: "string \<Rightarrow> string option" where
  "dateRe_hm s = Option.bind (Option.bind (digitsN 2 s) (lit (CHR '':''))) (digitsN 2)"

definition dateRe_fraction :: "string \<Rightarrow> string" where
  "dateRe_fraction s =
     (case Option.bind (lit (CHR ''.'') s) (digitsN 1) of
        None \<Rightarrow> s
      | Some r \<Rightarrow> drop (length (takeWhile is_digit (take 5 r))) r)"

definition dateRe_seconds :: "string \<Rightarrow> string" where
  "dateRe_seconds s =
     (case Option.bind (lit (CHR '':'') s) (digitsN 2) of
        None \<Rightarrow> s
      | Some r \<Rightarrow> dateRe_fraction r)"

definition dateRe_zone :: "string \<Rightarrow> string" where
  "dateRe_zone s =
     (case s of
        [] \<Rightarrow> []
      | c # r \<Rightarrow>
          if c = CHR ''Z'' then r
          else if c = CHR ''+'' \<or> c = CHR ''-'' then
            (case dateRe_hm r of None \<Rightarrow> s | Some r' \<Rightarrow> r')
          else s)"

definition dateRe :: "string \<Rightarrow> bool" where
  "dateRe s =
     (case dateRe_date s of
        None \<Rightarrow> False
      | Some r \<Rightarrow>
          (case r of
             [] \<Rightarrow> True
           | c # r1 \<Rightarrow>
               (c = CHR '' '' \<or> c = CHR ''t'' \<or> c = CHR ''T'') \<and>
               (case dateRe_hm r1 of
                  None \<Rightarrow> False
                | Some r2 \<Rightarrow> dateRe_zone (dateRe_seconds r2) = [])))"

definition looksLikeBareString :: "string \<Rightarrow> bool" where
  "looksLikeBareString v =
     (let trimmed = trim v in
      if (case trimmed of [] \<Rightarrow> False | c # _ \<Rightarrow> c = DQ \<or> c = SQ) then False
      else if (case trimmed of [] \<Rightarrow> False | c # _ \<Rightarrow> c = CHR ''['' \<or> c = CHR ''{'') then False
      else if boolRe trimmed then False
      else if numberRe trimmed then False
      else if dateRe trimmed then False
      else if length trimmed = 0 then False
      else True)"

text \<open>
  \<^verbatim>\<open>assignRe = /^(\s*[^#\s][^=]*?[^=\s]\s*=\s*)([^#"'\[\{#][^#]*?)(\s*(#.*)?)$/\<close>.

  The third group \<^verbatim>\<open>(\s*(#.*)?)$\<close> matches the whole of what is left: white space, then
  nothing or a comment that runs to the end of the line.
\<close>

definition assignRe_tail :: "string \<Rightarrow> bool" where
  "assignRe_tail s =
     (case dropWhile is_space s of
        [] \<Rightarrow> True
      | c # u \<Rightarrow> c = CHR ''#'' \<and> list_all (\<lambda>x. \<not> is_line_terminator x) u)"

text \<open>The lazy \<^verbatim>\<open>[^#]*?\<close> of the second group: the value read so far and the rest of the
  line; it stops at the first place where the third group matches.\<close>

fun assignRe_lazy :: "string \<Rightarrow> string \<Rightarrow> (string \<times> string) option" where
  "assignRe_lazy val [] = Some (val, [])"
| "assignRe_lazy val (c # s) =
     (if assignRe_tail (c # s) then Some (val, c # s)
      else if c = CHR ''#'' then None
      else assignRe_lazy (val @ [c]) s)"

text \<open>The first character of the second group, \<^verbatim>\<open>[^#"'\[\{#]\<close>.\<close>

definition value_start :: "char \<Rightarrow> bool" where
  "value_start c = (c \<noteq> CHR ''#'' \<and> c \<noteq> DQ \<and> c \<noteq> SQ \<and> c \<noteq> CHR ''['' \<and> c \<noteq> CHR ''{'')"

text \<open>The groups 2 and 3 when the \<^verbatim>\<open>\s*\<close> that ends group 1 takes \<open>n\<close> characters of what
  follows the equals sign; \<open>pre\<close> is group 1 up to that sign.\<close>

definition assignRe_at :: "string \<Rightarrow> string \<Rightarrow> nat \<Rightarrow> (string \<times> string \<times> string) option" where
  "assignRe_at pre r n =
     (case drop n r of
        [] \<Rightarrow> None
      | v # s \<Rightarrow>
          if value_start v then
            (case assignRe_lazy [v] s of
               None \<Rightarrow> None
             | Some (rawVal, tail) \<Rightarrow> Some (pre @ take n r, rawVal, tail))
          else None)"

fun assignRe_from :: "string \<Rightarrow> string \<Rightarrow> nat \<Rightarrow> (string \<times> string \<times> string) option" where
  "assignRe_from pre r 0 = assignRe_at pre r 0"
| "assignRe_from pre r (Suc n) =
     (case assignRe_at pre r (Suc n) of
        Some m \<Rightarrow> Some m
      | None \<Rightarrow> assignRe_from pre r n)"

text \<open>
  Group 1 up to the equals sign has one way to match: the leading white space, a first
  character that is neither white space nor \<^verbatim>\<open>#\<close>, and the text up to the next equals
  sign, which must hold a character that is not white space (the \<^verbatim>\<open>[^=\s]\<close>).  The
  result is the triple of the groups 1, 2 and 3.
\<close>

definition assignRe :: "string \<Rightarrow> (string \<times> string \<times> string) option" where
  "assignRe line =
     (case dropWhile is_space line of
        [] \<Rightarrow> None
      | c1 # r1 \<Rightarrow>
          if c1 = CHR ''#'' then None
          else
            (let seg = takeWhile (\<lambda>x. x \<noteq> CHR ''='') r1 in
             case dropWhile (\<lambda>x. x \<noteq> CHR ''='') r1 of
               [] \<Rightarrow> None
             | e # r3 \<Rightarrow>
                 if list_all is_space seg then None
                 else assignRe_from (takeWhile is_space line @ c1 # seg @ [e]) r3
                        (length (takeWhile is_space r3))))"

text \<open>The function mapped over the lines in \<^verbatim>\<open>readTomlFile\<close>, and the text \<^verbatim>\<open>relaxed\<close>
  that is handed to the parser.\<close>

definition relaxLine :: "string \<Rightarrow> string" where
  "relaxLine line =
     (if sectionHeaderRe line \<noteq> None then line
      else
        (case assignRe line of
           None \<Rightarrow> line
         | Some (lhs, rawVal, tail) \<Rightarrow>
             if \<not> looksLikeBareString rawVal then line
             else
               (let quoted = [DQ] @ replace_all DQ [BS, DQ] (replace_all BS [BS, BS] (trim rawVal))
                               @ [DQ]
                in lhs @ quoted @ tail)))"

definition relaxed :: "string \<Rightarrow> string" where
  "relaxed text = join [LF] (map relaxLine (split_lines text))"

section \<open>Notions used to state the properties\<close>

text \<open>The text with every carriage return that stands right before a line feed removed,
  and whether the text holds such a pair.\<close>

fun crlf_to_lf :: "string \<Rightarrow> string" where
  "crlf_to_lf [] = []"
| "crlf_to_lf (c # cs) =
     (if c = CR \<and> (case cs of [] \<Rightarrow> False | d # _ \<Rightarrow> d = LF) then crlf_to_lf cs
      else c # crlf_to_lf cs)"

fun has_crlf :: "string \<Rightarrow> bool" where
  "has_crlf [] = False"
| "has_crlf (c # cs) =
     ((c = CR \<and> (case cs of [] \<Rightarrow> False | d # _ \<Rightarrow> d = LF)) \<or> has_crlf cs)"

text \<open>
  The value of \<^verbatim>\<open>inSection\<close> after the loop of the patcher has passed the lines \<open>ls\<close>,
  started with the value \<open>s\<close>: the last header line decides, and \<open>s\<close> stands when there
  is none.
\<close>

definition scanState :: "bool \<Rightarrow> string \<Rightarrow> string list \<Rightarrow> bool" where
  "scanState s targetHeader ls =
     foldl (\<lambda>st l. case sectionHeaderRe l of None \<Rightarrow> st | Some hdr \<Rightarrow> trim hdr = targetHeader)
       s ls"

text \<open>Line \<open>i\<close> is an assignment of \<open>key\<close> inside the target section: it is no header, the
  scan is inside the section when it reaches the line, and \<^verbatim>\<open>keyRe\<close> matches it.\<close>

definition hitAt :: "bool \<Rightarrow> string \<Rightarrow> string \<Rightarrow> string list \<Rightarrow> nat \<Rightarrow> bool" where
  "hitAt s targetHeader key ls i =
     (i < length ls \<and> sectionHeaderRe (ls ! i) = None \<and> scanState s targetHeader (take i ls)
      \<and> keyRe key (ls ! i) \<noteq> None)"

definition matchAt :: "string list \<Rightarrow> string \<Rightarrow> string list \<Rightarrow> nat \<Rightarrow> bool" where
  "matchAt sectionPath key ls i = hitAt (sectionPath = []) (join ''.'' sectionPath) key ls i"

text \<open>The line the patcher writes in place of a line that \<^verbatim>\<open>keyRe\<close> matches.\<close>

definition rewritten :: "string \<Rightarrow> string \<Rightarrow> string \<Rightarrow> string" where
  "rewritten key newValToml line =
     (case keyRe key line of
        None \<Rightarrow> line
      | Some (indent, tailComment) \<Rightarrow> indent @ key @ '' = '' @ newValToml @ tailComment)"


text \<open>
  The calls of the line patcher that \<^verbatim>\<open>walkPatch\<close> makes, in order, each as the triple
  of its section path, key and literal; and the result of making these calls one after
  the other on a text.
\<close>

function patchCalls ::
  "('n \<Rightarrow> string) \<Rightarrow> (string \<times> 'n json) list \<Rightarrow> (string \<times> 'n json) list \<Rightarrow> string list
     \<Rightarrow> (string list \<times> string \<times> string) list" where
  "patchCalls numstr oldObj newObj pathAcc =
     concat (map (\<lambda>k.
        let oldVal = map_of oldObj k;
            newVal = map_of newObj k;
            newScalar = scalarOf numstr newVal;
            oldScalar = scalarOf numstr oldVal
        in if newScalar \<noteq> None \<and> oldScalar \<noteq> None then [(pathAcc, k, the newScalar)]
           else
             (case oldVal of
                Some (JObj oldTab) \<Rightarrow>
                  (case newVal of
                     Some (JObj newTab) \<Rightarrow> patchCalls numstr oldTab newTab (pathAcc @ [k])
                   | _ \<Rightarrow> [])
              | _ \<Rightarrow> []))
       (keySet oldObj newObj))"
  by pat_completeness auto
termination
  by (relation "measure (\<lambda>(numstr, oldObj, newObj, pathAcc).
                  size_list (size_prod (\<lambda>_. 0) size) oldObj)")
     (auto dest!: size_map_of_table [OF sym])

definition applyCall ::
  "(string \<times> bool) option \<Rightarrow> string list \<times> string \<times> string \<Rightarrow> (string \<times> bool) option" where
  "applyCall st c =
     (case st of
        None \<Rightarrow> None
      | Some (outText, patchedAny) \<Rightarrow>
          (case patchScalarInSection outText (fst c) (fst (snd c)) (snd (snd c)) of
             None \<Rightarrow> None
           | Some (t, patched) \<Rightarrow> Some (t, patchedAny \<or> patched)))"

definition applyCalls ::
  "(string \<times> bool) option \<Rightarrow> (string list \<times> string \<times> string) list \<Rightarrow> (string \<times> bool) option" where
  "applyCalls st cs = foldl applyCall st cs"



text \<open>\<^verbatim>\<open>String(v)\<close> for a number \<open>v\<close> that is an integer of magnitude at most \<open>2\<^sup>5\<^sup>3\<close>
  (each of them is a number, and its text is the sign and the decimal digits).  The
  examples use it as \<open>numstr\<close>, at small integers.\<close>

function String_int :: "int \<Rightarrow> string" where
  "String_int n =
     (if n < 0 then CHR ''-'' # String_int (- n)
      else if n < 10 then [''0123456789'' ! nat n]
      else String_int (n div 10) @ [''0123456789'' ! nat (n mod 10)])"
  by pat_completeness auto
termination
  by (relation "measure (\<lambda>n. if n < 0 then nat (- n) + 1 else nat n)") auto

declare walkPatch.simps [simp del]
declare patchCalls.simps [simp del]
declare String_int.simps [simp del]

section \<open>The save decision and structural changes\<close>

text \<open>
  Claim C1.  The claim: a save with preserve enabled whose old and new trees differ
  structurally falls back to the full re-stringification, with \<open>preserved\<close> false.  The
  code decides on \<^verbatim>\<open>patchedAny\<close> alone.  Here the original text is \<^verbatim>\<open>a = 1\<close>, the
  parser yields the tree \<^verbatim>\<open>{a: 1}\<close> for it, and the submitted tree changes \<open>a\<close> to 2 and
  adds the key \<open>b\<close>: the save returns the patched text \<^verbatim>\<open>a = 2\<close> with \<open>preserved\<close> true,
  whatever the serializer is, and the new key is not in the output.
\<close>

theorem save_structural_change_keeps_patch:
  "handleSave (\<lambda>t. if t = ''a = 1'' then Some [(''a'', JNum (Finite 1))] else None)
       stringify String_int True (Some ''a = 1'')
       (JObj [(''a'', JNum (Finite 2)), (''b'', JNum (Finite 3))])
     = Some (''a = 2'', True)"
  by code_simp

section \<open>The line patcher on single lines\<close>

text \<open>
  Claim C4.  The claim: patching \<open>port\<close> to \<^verbatim>\<open>9090\<close> in the line
  \<^verbatim>\<open>port = 8080 # listen port\<close> yields \<^verbatim>\<open>port = 9090 # listen port\<close>.  The greedy value
  group of \<^verbatim>\<open>keyRe\<close> takes the space before the comment, so the patcher writes the
  comment right after the literal.
\<close>

theorem patch_drops_space_before_comment:
  "patchScalarInSection ''port = 8080 # listen port'' [] ''port'' ''9090''
     = Some (''port = 9090# listen port'', True)"
  by code_simp

text \<open>
  Claim C6.  The claim: a scan that is inside the target section and meets another
  header before it matched the key stops with \<open>patched\<close> false.  The \<^verbatim>\<open>break\<close> of the
  loop is behind the \<^verbatim>\<open>continue\<close> of the header case and never runs: the scan goes on
  and matches the key below a later line that reads as a header of the target section.
  The first text repeats the header; in the second one, the lines \<^verbatim>\<open>[b]\<close> and \<^verbatim>\<open>[a]\<close>
  are the content of a multi-line string of the table \<open>a\<close>.
\<close>

theorem patch_resumes_in_repeated_section:
  \<open>patchScalarInSection (join [LF] [''[a]'', ''[b]'', ''[a]'', ''host = 1'']) [''a''] ''host'' ''2''
     = Some (join [LF] [''[a]'', ''[b]'', ''[a]'', ''host = 2''], True)
   \<and> patchScalarInSection
         (join [LF] [''[a]'', ''x = """'', ''[b]'', ''[a]'', ''"""'', ''host = 1''])
         [''a''] ''host'' ''2''
       = Some (join [LF] [''[a]'', ''x = """'', ''[b]'', ''[a]'', ''"""'', ''host = 2''], True)\<close>
  by code_simp

section \<open>The normalizer on number and time literals\<close>

text \<open>
  Claim C8.  The claim: the normalizer leaves numbers and timestamps untouched.  The
  number pattern of \<^verbatim>\<open>looksLikeBareString\<close> knows decimal literals only and its date
  pattern needs a date, so a hexadecimal integer and a local time are taken for bare
  strings and quoted.
\<close>

theorem relaxed_quotes_hex_and_time:
  \<open>relaxed ''port = 0xFF'' = ''port = "0xFF"'' \<and>
   relaxed ''at = 07:32:00'' = ''at = "07:32:00"''\<close>
  by code_simp

section \<open>The scalar literal serializer\<close>

lemma escape_chars:
  "replace_all DQ [BS, DQ] (replace_all BS [BS, BS] s)
     = concat (map (\<lambda>c. if c = BS then [BS, BS] else if c = DQ then [BS, DQ] else [c]) s)"
  by (induction s) (auto simp: replace_all_def)

text \<open>
  Claim C7.  The serializer maps a boolean to \<^verbatim>\<open>true\<close> or \<^verbatim>\<open>false\<close>, a finite number
  to its default decimal text (\<open>numstr\<close>), a number that is not finite to \<^verbatim>\<open>0\<close>, a
  string to the string between double quotes with every backslash and every double quote
  preceded by a backslash, the null value to the text \<^verbatim>\<open>null\<close>; and it returns no
  literal exactly for an array or a table.
\<close>

theorem scalar_serializer_mapping:
  "valueToTomlScalar numstr (JBool True) = Some ''true''
   \<and> valueToTomlScalar numstr (JBool False) = Some ''false''
   \<and> valueToTomlScalar numstr (JNum (Finite n)) = Some (numstr n)
   \<and> valueToTomlScalar numstr (JNum NaN) = Some ''0''
   \<and> valueToTomlScalar numstr (JNum Infinity) = Some ''0''
   \<and> valueToTomlScalar numstr (JNum NegInfinity) = Some ''0''
   \<and> valueToTomlScalar numstr (JStr s)
       = Some ([DQ] @ concat (map (\<lambda>c. if c = BS then [BS, BS]
                                       else if c = DQ then [BS, DQ] else [c]) s) @ [DQ])
   \<and> valueToTomlScalar numstr JNull = Some ''null''
   \<and> (valueToTomlScalar numstr v = None \<longleftrightarrow> (\<exists>xs. v = JArr xs) \<or> (\<exists>kvs. v = JObj kvs))"
proof -
  have comp: "valueToTomlScalar numstr v = None \<longleftrightarrow> (\<exists>xs. v = JArr xs) \<or> (\<exists>kvs. v = JObj kvs)"
    by (cases "(numstr, v)" rule: valueToTomlScalar.cases) auto
  show ?thesis
    using comp by (simp add: quoteTomlString_def escape_chars)
qed

section \<open>Splitting and joining lines\<close>

lemma split_lines_ne: "split_lines t \<noteq> []"
proof (induction t)
  case Nil
  show ?case by simp
next
  case (Cons c cs)
  then obtain l ls where "split_lines cs = l # ls"
    by (cases "split_lines cs") auto
  then show ?case by simp
qed

lemma join_Cons: "join sep (l # ls) = (if ls = [] then l else l @ sep @ join sep ls)"
  by (cases ls) auto

lemma join_split_lines: "join [LF] (split_lines t) = crlf_to_lf t"
proof (induction t)
  case Nil
  show ?case by simp
next
  case (Cons c cs)
  obtain l ls where sp: "split_lines cs = l # ls"
    using split_lines_ne [of cs] by (cases "split_lines cs") auto
  show ?case
    using Cons sp by (cases "ls = []") (simp_all add: join_Cons)
qed

lemma crlf_to_lf_id: "\<not> has_crlf t \<Longrightarrow> crlf_to_lf t = t"
  by (induction t) simp_all

section \<open>The loop of the line patcher\<close>

lemma patchLoop_header:
  "sectionHeaderRe l = Some hdr \<Longrightarrow>
     patchLoop s h key newVal (l # ls) = apfst ((#) l) (patchLoop (trim hdr = h) h key newVal ls)"
  by simp

lemma patchLoop_skip:
  "sectionHeaderRe l = None \<Longrightarrow> \<not> s \<or> keyRe key l = None \<Longrightarrow>
     patchLoop s h key newVal (l # ls) = apfst ((#) l) (patchLoop s h key newVal ls)"
  by auto

lemma patchLoop_hit:
  "sectionHeaderRe l = None \<Longrightarrow> s \<Longrightarrow> keyRe key l = Some m \<Longrightarrow>
     patchLoop s h key newVal (l # ls) = (rewritten key newVal l # ls, True)"
  by (cases m) (simp add: rewritten_def)

lemma patchLoop_miss: "patchLoop s h key newVal ls = (ls', False) \<Longrightarrow> ls' = ls"
proof (induction ls arbitrary: s ls')
  case Nil
  then show ?case by simp
next
  case (Cons l ls)
  show ?case
  proof (cases "sectionHeaderRe l")
    case (Some hdr)
    obtain r p where rec: "patchLoop (trim hdr = h) h key newVal ls = (r, p)"
      by (cases "patchLoop (trim hdr = h) h key newVal ls")
    with Cons.prems have "ls' = l # r" "p = False"
      by (simp_all add: patchLoop_header [OF Some] del: patchLoop.simps)
    with rec Cons.IH [of "trim hdr = h" r] show ?thesis by simp
  next
    case None
    obtain r p where rec: "patchLoop s h key newVal ls = (r, p)"
      by (cases "patchLoop s h key newVal ls")
    show ?thesis
    proof (cases "\<not> s \<or> keyRe key l = None")
      case True
      with Cons.prems rec have "ls' = l # r" "p = False"
        by (simp_all add: patchLoop_skip [OF None True] del: patchLoop.simps)
      with rec Cons.IH [of s r] show ?thesis by simp
    next
      case False
      then obtain m where "s" "keyRe key l = Some m" by auto
      with Cons.prems show ?thesis
        by (simp add: patchLoop_hit [OF None] del: patchLoop.simps)
    qed
  qed
qed

text \<open>
  Claim C5 says that a patch that finds no matching line returns \<open>patched\<close> false and
  its input text, character for character.  The patcher joins the lines it split with
  line feeds, so a text of two lines separated by a carriage return and a line feed comes
  back without the carriage return.
\<close>

theorem patch_miss_crlf_counterexample:
  "patchScalarInSection [CHR ''a'', CR, LF, CHR ''b''] [] ''k'' ''1''
     = Some ([CHR ''a'', LF, CHR ''b''], False)
   \<and> [CHR ''a'', LF, CHR ''b''] \<noteq> [CHR ''a'', CR, LF, CHR ''b'']"
  by code_simp

text \<open>
  Claim C5, as the code has it.  For every text, section path, key and literal: when the
  patcher returns \<open>patched\<close> false, the text it returns is the input with every carriage
  return that stands before a line feed removed; it is the input, character for
  character, when the input holds no carriage return followed by a line feed.
\<close>

theorem patch_miss_text:
  assumes "patchScalarInSection text sectionPath key newVal = Some (out, False)"
  shows "out = crlf_to_lf text \<and> (\<not> has_crlf text \<longrightarrow> out = text)"
proof -
  obtain ls' where loop: "patchLoop (sectionPath = []) (join ''.'' sectionPath) key newVal (split_lines text) = (ls', False)"
    and out: "out = join [LF] ls'"
    using assms by (auto simp: patchScalarInSection_def Let_def split: if_splits prod.splits)
  have "ls' = split_lines text"
    using loop by (rule patchLoop_miss)
  then have "out = crlf_to_lf text"
    using out by (simp add: join_split_lines)
  then show ?thesis
    by (simp add: crlf_to_lf_id)
qed

theorem patch_miss_text_witness:
  "patchScalarInSection ''x = 1'' [] ''k'' ''2'' = Some (''x = 1'', False)
   \<and> ''x = 1'' = crlf_to_lf ''x = 1''"
proof -
  have h: "patchScalarInSection ''x = 1'' [] ''k'' ''2'' = Some (''x = 1'', False)"
    by code_simp
  show ?thesis
    using h patch_miss_text [OF h] by simp
qed

section \<open>The first matching line\<close>

lemma hitAt_Nil: "\<not> hitAt s h key [] i"
  by (simp add: hitAt_def)

lemma hitAt_0:
  "hitAt s h key (l # ls) 0 \<longleftrightarrow> sectionHeaderRe l = None \<and> s \<and> keyRe key l \<noteq> None"
  by (simp add: hitAt_def scanState_def)

lemma not_hitAt_0:
  "sectionHeaderRe l = None \<Longrightarrow> \<not> hitAt s h key (l # ls) 0 \<Longrightarrow> \<not> s \<or> keyRe key l = None"
  by (cases "keyRe key l") (simp_all add: hitAt_def scanState_def)

lemma hitAt_Suc:
  "hitAt s h key (l # ls) (Suc i)
     \<longleftrightarrow> hitAt (case sectionHeaderRe l of None \<Rightarrow> s | Some hdr \<Rightarrow> trim hdr = h) h key ls i"
  by (simp add: hitAt_def scanState_def)

lemma patchLoop_first:
  "hitAt s h key ls i \<Longrightarrow> (\<forall>k<i. \<not> hitAt s h key ls k) \<Longrightarrow>
     patchLoop s h key newVal ls = (ls[i := rewritten key newVal (ls ! i)], True)"
proof (induction ls arbitrary: s i)
  case Nil
  then show ?case by (simp add: hitAt_Nil)
next
  case (Cons l ls)
  let ?s' = "case sectionHeaderRe l of None \<Rightarrow> s | Some hdr \<Rightarrow> trim hdr = h"
  show ?case
  proof (cases "hitAt s h key (l # ls) 0")
    case True
    with Cons.prems(2) have "i = 0" by (cases i) auto
    moreover from True obtain m where "sectionHeaderRe l = None" "s" "keyRe key l = Some m"
      by (auto simp: hitAt_0)
    ultimately show ?thesis
      by (simp add: patchLoop_hit del: patchLoop.simps)
  next
    case False
    with Cons.prems(1) obtain i' where i: "i = Suc i'" by (cases i) auto
    have hit: "hitAt ?s' h key ls i'"
      using Cons.prems(1) i by (simp add: hitAt_Suc)
    have first: "\<forall>k<i'. \<not> hitAt ?s' h key ls k"
      using Cons.prems(2) i by (auto simp: hitAt_Suc [symmetric])
    have rec: "patchLoop ?s' h key newVal ls = (ls[i' := rewritten key newVal (ls ! i')], True)"
      using Cons.IH [OF hit first] .
    show ?thesis
    proof (cases "sectionHeaderRe l")
      case (Some hdr)
      with rec i show ?thesis
        by (simp add: patchLoop_header del: patchLoop.simps)
    next
      case None
      have "\<not> s \<or> keyRe key l = None" using None False by (rule not_hitAt_0)
      with None rec i show ?thesis
        by (simp add: patchLoop_skip del: patchLoop.simps)
    qed
  qed
qed

lemma patchLoop_none:
  "(\<forall>k. \<not> hitAt s h key ls k) \<Longrightarrow> patchLoop s h key newVal ls = (ls, False)"
proof (induction ls arbitrary: s)
  case Nil
  show ?case by simp
next
  case (Cons l ls)
  let ?s' = "case sectionHeaderRe l of None \<Rightarrow> s | Some hdr \<Rightarrow> trim hdr = h"
  have "\<forall>k. \<not> hitAt ?s' h key ls k"
    using Cons.prems by (auto simp: hitAt_Suc [symmetric])
  then have rec: "patchLoop ?s' h key newVal ls = (ls, False)"
    by (rule Cons.IH)
  show ?case
  proof (cases "sectionHeaderRe l")
    case (Some hdr)
    with rec show ?thesis
      by (simp add: patchLoop_header del: patchLoop.simps)
  next
    case None
    from Cons.prems have nh: "\<not> hitAt s h key (l # ls) 0" by blast
    have "\<not> s \<or> keyRe key l = None" using None nh by (rule not_hitAt_0)
    with None rec show ?thesis
      by (simp add: patchLoop_skip del: patchLoop.simps)
  qed
qed

lemma patchLoop_result:
  assumes "patchLoop s h key newVal ls = (ls', p)"
  shows "if p then \<exists>n<length ls. ls' = ls[n := rewritten key newVal (ls ! n)] else ls' = ls"
proof (cases "\<exists>k. hitAt s h key ls k")
  case True
  then obtain k where k: "hitAt s h key ls k" ..
  define i where "i = (LEAST k. hitAt s h key ls k)"
  have hit: "hitAt s h key ls i"
    unfolding i_def using k by (rule LeastI)
  have first: "\<forall>k<i. \<not> hitAt s h key ls k"
    unfolding i_def using not_less_Least by blast
  have "patchLoop s h key newVal ls = (ls[i := rewritten key newVal (ls ! i)], True)"
    using hit first by (rule patchLoop_first)
  moreover have "i < length ls"
    using hit by (simp add: hitAt_def)
  ultimately show ?thesis
    using assms by auto
next
  case False
  then have "patchLoop s h key newVal ls = (ls, False)"
    by (simp add: patchLoop_none)
  with assms show ?thesis by simp
qed

text \<open>For a key of the model, the first line that \<^verbatim>\<open>keyRe\<close> matches inside the target
  section is the one line the patcher replaces; every other line stays.\<close>

lemma patch_first_match_only:
  assumes "pattern_key key" and "i \<noteq> j"
    and "matchAt sectionPath key (split_lines text) i"
    and "\<forall>k<i. \<not> matchAt sectionPath key (split_lines text) k"
  shows "patchScalarInSection text sectionPath key newVal
           = Some (join [LF] ((split_lines text)[i := rewritten key newVal (split_lines text ! i)]), True)
         \<and> (split_lines text)[i := rewritten key newVal (split_lines text ! i)] ! j
             = split_lines text ! j"
proof -
  let ?ls = "split_lines text"
  have loop: "patchLoop (sectionPath = []) (join ''.'' sectionPath) key newVal ?ls
                = (?ls[i := rewritten key newVal (?ls ! i)], True)"
    using assms(3,4) unfolding matchAt_def by (rule patchLoop_first)
  have one: "patchScalarInSection text sectionPath key newVal
               = Some (join [LF] (?ls[i := rewritten key newVal (?ls ! i)]), True)"
    using assms(1) loop by (simp add: patchScalarInSection_def)
  have two: "?ls[i := rewritten key newVal (?ls ! i)] ! j = ?ls ! j"
    using assms(2) by simp
  show ?thesis
    using one two by blast
qed

text \<open>
  Claim C9.  The claim: when the same key stands on two assignment lines of a section,
  the patcher rewrites the first of them only.  The key reaches \<^verbatim>\<open>keyRe\<close> without
  escaping, although the code calls \<^verbatim>\<open>replace\<close> to escape it, so the dot of the key
  \<^verbatim>\<open>a.b\<close> matches any character: the patcher rewrites the line of the key \<^verbatim>\<open>axb\<close>, which
  stands first, into a third line for \<^verbatim>\<open>a.b\<close>, and leaves both lines of the key as they
  are.
\<close>

theorem patch_dot_key_rewrites_other_line:
  "patchScalarInSection (join [LF] [''axb = 0'', ''a.b = 1'', ''a.b = 2'']) [] ''a.b'' ''9''
     = Some (join [LF] [''a.b = 9'', ''a.b = 1'', ''a.b = 2''], True)"
  by code_simp

section \<open>The match of an assignment line\<close>

lemma dropWhile_weaker:
  "(\<And>x. P x \<Longrightarrow> Q x) \<Longrightarrow> dropWhile Q (dropWhile P xs) = dropWhile Q xs"
  by (induction xs) auto

lemma space_not_hash: "is_space x \<Longrightarrow> x \<noteq> CHR ''#''"
  by (auto simp: is_space_def)

lemma keyRe_rest_shape:
  assumes "keyRe_rest r = Some t"
  shows "\<exists>ws r2. r = ws @ CHR ''='' # r2 \<and> list_all is_space ws
           \<and> t = dropWhile (\<lambda>x. x \<noteq> CHR ''#'') r2"
proof -
  obtain r2 where d: "dropWhile is_space r = CHR ''='' # r2"
    and t: "t = dropWhile (\<lambda>x. x \<noteq> CHR ''#'') (dropWhile is_space r2)"
    using assms by (auto simp: keyRe_rest_def Let_def split: list.splits if_splits)
  have "r = takeWhile is_space r @ CHR ''='' # r2"
    using d takeWhile_dropWhile_id [of is_space r] by simp
  moreover have "list_all is_space (takeWhile is_space r)"
    by (simp add: list_all_iff) (meson set_takeWhileD)
  moreover have "t = dropWhile (\<lambda>x. x \<noteq> CHR ''#'') r2"
    using t by (simp add: dropWhile_weaker space_not_hash)
  ultimately show ?thesis by blast
qed

lemma keyRe_from_at:
  "keyRe_from key line n = Some m \<Longrightarrow> \<exists>k. keyRe_at key line k = Some m"
  by (induction n) (auto split: option.splits)

lemma keyRe_shape:
  assumes "keyRe key line = Some (indent, tailComment)"
  shows "\<exists>kk ws r2. line = indent @ kk @ ws @ CHR ''='' # r2 \<and> list_all2 keyAtom key kk
           \<and> list_all is_space ws \<and> tailComment = dropWhile (\<lambda>x. x \<noteq> CHR ''#'') r2"
proof -
  obtain k where at: "keyRe_at key line k = Some (indent, tailComment)"
    using assms keyRe_from_at unfolding keyRe_def by blast
  then have ind: "indent = take k line"
    and pre: "list_all2 keyAtom key (take (length key) (drop k line))"
    and rest: "keyRe_rest (drop (length key) (drop k line)) = Some tailComment"
    by (auto simp: keyRe_at_def Let_def split: if_splits option.splits)
  from keyRe_rest_shape [OF rest] obtain ws r2
    where r: "drop (length key) (drop k line) = ws @ CHR ''='' # r2"
      and ws: "list_all is_space ws"
      and t: "tailComment = dropWhile (\<lambda>x. x \<noteq> CHR ''#'') r2"
    by blast
  have "line = take k line @ drop k line" by simp
  also have "drop k line = take (length key) (drop k line) @ drop (length key) (drop k line)"
    by (rule append_take_drop_id [symmetric])
  finally have "line = indent @ take (length key) (drop k line) @ ws @ CHR ''='' # r2"
    using ind r by simp
  with pre ws t show ?thesis by blast
qed

lemma split_at_first_nonspace:
  assumes "xs @ c # a = ys @ c # b" and "list_all P xs" and "list_all P ys" and "\<not> P c"
  shows "xs = ys \<and> a = b"
proof -
  have "takeWhile P (xs @ c # a) = xs"
    using assms(2,4) by (simp add: list_all_iff takeWhile_append2)
  moreover have "takeWhile P (ys @ c # b) = ys"
    using assms(3,4) by (simp add: list_all_iff takeWhile_append2)
  ultimately have "xs = ys" using assms(1) by simp
  with assms(1) show ?thesis by simp
qed

text \<open>
  Claim C10.  A line of the target section that \<^verbatim>\<open>keyRe\<close> matches and whose text \<open>v\<close>
  after the equals sign holds a \<^verbatim>\<open>#\<close>: the trailing comment of the match is \<open>v\<close> from its
  first \<^verbatim>\<open>#\<close> on, the value segment is what stands before it, and the line the patcher
  writes ends with that part of the old value, right after the new literal.
\<close>

theorem hash_in_value_starts_comment:
  assumes "keyRe key line = Some (indent, tailComment)"
    and "line = indent @ key @ ws @ CHR ''='' # v"
    and "list_all is_space ws"
    and "CHR ''#'' \<in> set v"
    and "sectionHeaderRe line = None"
    and "plain_key key"
  shows "tailComment = dropWhile (\<lambda>c. c \<noteq> CHR ''#'') v
         \<and> hd tailComment = CHR ''#''
         \<and> v = takeWhile (\<lambda>c. c \<noteq> CHR ''#'') v @ tailComment
         \<and> patchLoop True targetHeader key newVal (line # ls)
             = ((indent @ key @ '' = '' @ newVal @ dropWhile (\<lambda>c. c \<noteq> CHR ''#'') v) # ls, True)"
proof -
  from keyRe_shape [OF assms(1)] obtain kk ws' r2
    where l: "line = indent @ kk @ ws' @ CHR ''='' # r2"
      and kk: "list_all2 keyAtom key kk"
      and ws': "list_all is_space ws'"
      and t: "tailComment = dropWhile (\<lambda>x. x \<noteq> CHR ''#'') r2"
    by blast
  have "length kk = length key"
    using kk by (simp add: list_all2_lengthD)
  moreover have "kk @ ws' @ CHR ''='' # r2 = key @ ws @ CHR ''='' # v"
    using l assms(2) by simp
  ultimately have "ws' @ CHR ''='' # r2 = ws @ CHR ''='' # v"
    by simp
  then have "r2 = v"
    using split_at_first_nonspace [of ws' "CHR ''=''" r2 ws v is_space] ws' assms(3)
    by (simp add: is_space_def)
  with t have tail: "tailComment = dropWhile (\<lambda>c. c \<noteq> CHR ''#'') v" by simp
  have ne: "dropWhile (\<lambda>c. c \<noteq> CHR ''#'') v \<noteq> []"
    using assms(4) by (simp add: dropWhile_eq_Nil_conv) 
  have hd: "hd tailComment = CHR ''#''"
    using hd_dropWhile [OF ne] tail by simp
  have "patchLoop True targetHeader key newVal (line # ls) = (rewritten key newVal line # ls, True)"
    using assms(5) assms(1) by (simp add: patchLoop_hit del: patchLoop.simps)
  then have "patchLoop True targetHeader key newVal (line # ls)
               = ((indent @ key @ '' = '' @ newVal @ dropWhile (\<lambda>c. c \<noteq> CHR ''#'') v) # ls, True)"
    using assms(1) tail by (simp add: rewritten_def)
  with tail hd show ?thesis by simp
qed

theorem hash_in_value_starts_comment_witness:
  \<open>plain_key ''k'' \<and> keyRe ''k'' ''k = "a#b"'' = Some ([], ''#b"'')
   \<and> list_all is_space '' '' \<and> CHR ''#'' \<in> set '' "a#b"''
   \<and> sectionHeaderRe ''k = "a#b"'' = None
   \<and> patchLoop True [] ''k'' ''"c"'' [''k = "a#b"''] = ([''k = "c"#b"''], True)\<close>
proof -
  have h1: \<open>keyRe ''k'' ''k = "a#b"'' = Some ([], ''#b"'')\<close> by code_simp
  have h2: \<open>''k = "a#b"'' = [] @ ''k'' @ '' '' @ CHR ''='' # '' "a#b"''\<close> by simp
  have h3: "list_all is_space '' ''" by code_simp
  have h4: \<open>CHR ''#'' \<in> set '' "a#b"''\<close> by simp
  have h5: \<open>sectionHeaderRe ''k = "a#b"'' = None\<close> by code_simp
  have h6: "plain_key ''k''" by code_simp
  have \<open>patchLoop True [] ''k'' ''"c"'' [''k = "a#b"'']
          = (([] @ ''k'' @ '' = '' @ ''"c"'' @ dropWhile (\<lambda>c. c \<noteq> CHR ''#'') '' "a#b"'') # [], True)\<close>
    using hash_in_value_starts_comment [OF h1 h2 h3 h4 h5 h6, of "[]" \<open>''"c"''\<close> "[]"] by blast
  then have \<open>patchLoop True [] ''k'' ''"c"'' [''k = "a#b"''] = ([''k = "c"#b"''], True)\<close>
    by simp
  with h1 h3 h4 h5 h6 show ?thesis by blast
qed

section \<open>What the patterns of the patcher accept\<close>

text \<open>
  The matchers above follow the order in which the regular expressions try their
  choices.  The lemmas of this section state what they accept as plain shapes of a line:
  \<^verbatim>\<open>sectionHeaderRe\<close> accepts white space, a bracketed non-empty text without a closing
  bracket, and white space; \<^verbatim>\<open>keyRe\<close> accepts white space, a text that the key matches
  character by character, white space, the equals sign, and a rest in which no line
  terminator follows the first \<^verbatim>\<open>#\<close>.
\<close>

lemma list_all_takeWhile: "list_all P (takeWhile P xs)"
  by (induction xs) auto

lemma takeWhile_spaces:
  "list_all P ws \<Longrightarrow> \<not> P c \<Longrightarrow> takeWhile P (ws @ c # r) = ws"
  by (induction ws) auto

lemma dropWhile_spaces:
  "list_all P ws \<Longrightarrow> \<not> P c \<Longrightarrow> dropWhile P (ws @ c # r) = c # r"
  by (induction ws) auto

lemma sectionHeaderRe_iff:
  "sectionHeaderRe line = Some body \<longleftrightarrow>
     (\<exists>ws1 ws2. line = ws1 @ CHR ''['' # body @ CHR '']'' # ws2
        \<and> list_all is_space ws1 \<and> list_all is_space ws2
        \<and> body \<noteq> [] \<and> CHR '']'' \<notin> set body)"
proof
  assume m: "sectionHeaderRe line = Some body"
  then obtain r where d: "dropWhile is_space line = CHR ''['' # r"
    by (auto simp: sectionHeaderRe_def split: list.splits if_splits)
  from m d have b: "body = takeWhile (\<lambda>x. x \<noteq> CHR '']'') r" and ne: "body \<noteq> []"
    and rest: "dropWhile (\<lambda>x. x \<noteq> CHR '']'') r \<noteq> []"
    and sp: "list_all is_space (tl (dropWhile (\<lambda>x. x \<noteq> CHR '']'') r))"
    by (auto simp: sectionHeaderRe_def Let_def split: if_splits)
  from rest have hd: "hd (dropWhile (\<lambda>x. x \<noteq> CHR '']'') r) = CHR '']''"
    using hd_dropWhile [of "\<lambda>x. x \<noteq> CHR '']''" r] by simp
  have "line = takeWhile is_space line @ dropWhile is_space line" by simp
  also have "dropWhile is_space line = CHR ''['' # body @ dropWhile (\<lambda>x. x \<noteq> CHR '']'') r"
    using d b by simp
  also have "dropWhile (\<lambda>x. x \<noteq> CHR '']'') r = CHR '']'' # tl (dropWhile (\<lambda>x. x \<noteq> CHR '']'') r)"
    using rest hd by (cases "dropWhile (\<lambda>x. x \<noteq> CHR '']'') r") auto
  finally have "line = takeWhile is_space line @ CHR ''['' # body
                  @ CHR '']'' # tl (dropWhile (\<lambda>x. x \<noteq> CHR '']'') r)" .
  moreover have "CHR '']'' \<notin> set body"
    using b by (auto dest: set_takeWhileD)
  ultimately show "\<exists>ws1 ws2. line = ws1 @ CHR ''['' # body @ CHR '']'' # ws2
        \<and> list_all is_space ws1 \<and> list_all is_space ws2
        \<and> body \<noteq> [] \<and> CHR '']'' \<notin> set body"
    using sp ne list_all_takeWhile [of is_space line] by blast
next
  assume "\<exists>ws1 ws2. line = ws1 @ CHR ''['' # body @ CHR '']'' # ws2
        \<and> list_all is_space ws1 \<and> list_all is_space ws2
        \<and> body \<noteq> [] \<and> CHR '']'' \<notin> set body"
  then obtain ws1 ws2 where l: "line = ws1 @ CHR ''['' # body @ CHR '']'' # ws2"
    and w1: "list_all is_space ws1" and w2: "list_all is_space ws2"
    and ne: "body \<noteq> []" and nb: "CHR '']'' \<notin> set body"
    by blast
  have nsp: "\<not> is_space (CHR ''['')" by (simp add: is_space_def)
  have d: "dropWhile is_space line = CHR ''['' # body @ CHR '']'' # ws2"
    unfolding l using w1 nsp by (rule dropWhile_spaces)
  have ball: "list_all (\<lambda>x. x \<noteq> CHR '']'') body"
    using nb by (auto simp: list_all_iff)
  have t: "takeWhile (\<lambda>x. x \<noteq> CHR '']'') (body @ CHR '']'' # ws2) = body"
    using ball by (rule takeWhile_spaces) simp
  have dr: "dropWhile (\<lambda>x. x \<noteq> CHR '']'') (body @ CHR '']'' # ws2) = CHR '']'' # ws2"
    using ball by (rule dropWhile_spaces) simp
  show "sectionHeaderRe line = Some body"
    using d t dr ne w2 by (simp add: sectionHeaderRe_def)
qed

lemma keyRe_rest_iff:
  "keyRe_rest r = Some t \<longleftrightarrow>
     (\<exists>ws v. r = ws @ CHR ''='' # v \<and> list_all is_space ws
        \<and> t = dropWhile (\<lambda>x. x \<noteq> CHR ''#'') v
        \<and> list_all (\<lambda>x. \<not> is_line_terminator x) t)"
proof
  assume m: "keyRe_rest r = Some t"
  then obtain r2 where d: "dropWhile is_space r = CHR ''='' # r2"
    by (auto simp: keyRe_rest_def split: list.splits if_splits)
  from m d have t: "t = dropWhile (\<lambda>x. x \<noteq> CHR ''#'') (dropWhile is_space r2)"
    and lt: "list_all (\<lambda>x. \<not> is_line_terminator x) t"
    by (auto simp: keyRe_rest_def Let_def split: if_splits)
  have "r = takeWhile is_space r @ CHR ''='' # r2"
    using d takeWhile_dropWhile_id [of is_space r] by simp
  moreover have "t = dropWhile (\<lambda>x. x \<noteq> CHR ''#'') r2"
    using t by (simp add: dropWhile_weaker space_not_hash)
  ultimately show "\<exists>ws v. r = ws @ CHR ''='' # v \<and> list_all is_space ws
        \<and> t = dropWhile (\<lambda>x. x \<noteq> CHR ''#'') v
        \<and> list_all (\<lambda>x. \<not> is_line_terminator x) t"
    using lt list_all_takeWhile [of is_space r] by blast
next
  assume "\<exists>ws v. r = ws @ CHR ''='' # v \<and> list_all is_space ws
        \<and> t = dropWhile (\<lambda>x. x \<noteq> CHR ''#'') v
        \<and> list_all (\<lambda>x. \<not> is_line_terminator x) t"
  then obtain ws v where r: "r = ws @ CHR ''='' # v" and ws: "list_all is_space ws"
    and t: "t = dropWhile (\<lambda>x. x \<noteq> CHR ''#'') v"
    and lt: "list_all (\<lambda>x. \<not> is_line_terminator x) t"
    by blast
  have nsp: "\<not> is_space (CHR ''='')" by (simp add: is_space_def)
  have d: "dropWhile is_space r = CHR ''='' # v"
    unfolding r using ws nsp by (rule dropWhile_spaces)
  have "dropWhile (\<lambda>x. x \<noteq> CHR ''#'') (dropWhile is_space v) = t"
    using t by (simp add: dropWhile_weaker space_not_hash)
  then show "keyRe_rest r = Some t"
    using d lt by (simp add: keyRe_rest_def)
qed

lemma keyRe_from_Some:
  "keyRe_from key line n = Some m \<Longrightarrow> \<exists>k\<le>n. keyRe_at key line k = Some m"
proof (induction n)
  case 0
  then show ?case by simp
next
  case (Suc n)
  show ?case
  proof (cases "keyRe_at key line (Suc n)")
    case None
    with Suc.prems have "keyRe_from key line n = Some m" by simp
    from Suc.IH [OF this] show ?thesis using le_Suc_eq by blast
  next
    case (Some a)
    with Suc.prems show ?thesis by auto
  qed
qed

lemma keyRe_from_None:
  "keyRe_from key line n = None \<Longrightarrow> k \<le> n \<Longrightarrow> keyRe_at key line k = None"
proof (induction n)
  case 0
  then show ?case by simp
next
  case (Suc n)
  then show ?case
    by (cases "keyRe_at key line (Suc n)") (auto simp: le_Suc_eq)
qed

lemma prefix_spaces_length:
  "line = indent @ r \<Longrightarrow> list_all is_space indent \<Longrightarrow> length indent \<le> length (takeWhile is_space line)"
proof (induction indent arbitrary: line)
  case Nil
  show ?case by simp
next
  case (Cons c indent)
  then show ?case by auto
qed

lemma keyRe_matches_iff:
  "(\<exists>m. keyRe key line = Some m) \<longleftrightarrow>
     (\<exists>indent kk ws v. line = indent @ kk @ ws @ CHR ''='' # v
        \<and> list_all is_space indent \<and> list_all2 keyAtom key kk \<and> list_all is_space ws
        \<and> list_all (\<lambda>x. \<not> is_line_terminator x) (dropWhile (\<lambda>x. x \<noteq> CHR ''#'') v))"
proof
  assume "\<exists>m. keyRe key line = Some m"
  then obtain m where "keyRe_from key line (length (takeWhile is_space line)) = Some m"
    by (auto simp: keyRe_def)
  from keyRe_from_Some [OF this] obtain k where k: "k \<le> length (takeWhile is_space line)"
    and at: "keyRe_at key line k = Some m" by blast
  obtain t where pre: "list_all2 keyAtom key (take (length key) (drop k line))"
    and rest: "keyRe_rest (drop (length key) (drop k line)) = Some t"
    using at by (auto simp: keyRe_at_def Let_def split: if_splits option.splits)
  from rest obtain ws v where r: "drop (length key) (drop k line) = ws @ CHR ''='' # v"
    and ws: "list_all is_space ws"
    and lt: "list_all (\<lambda>x. \<not> is_line_terminator x) (dropWhile (\<lambda>x. x \<noteq> CHR ''#'') v)"
    unfolding keyRe_rest_iff by blast
  have "take k line = take k (takeWhile is_space line)"
    using k by (metis append_eq_conv_conj takeWhile_dropWhile_id take_all take_append
        diff_is_0_eq' take_0 append_Nil2)
  then have ind: "list_all is_space (take k line)"
    using list_all_takeWhile [of is_space line]
    by (metis append_take_drop_id list_all_append)
  have "line = take k line @ drop k line" by simp
  also have "drop k line = take (length key) (drop k line) @ drop (length key) (drop k line)"
    by (rule append_take_drop_id [symmetric])
  finally have "line = take k line @ take (length key) (drop k line) @ ws @ CHR ''='' # v"
    using r by simp
  with ind pre ws lt show "\<exists>indent kk ws v. line = indent @ kk @ ws @ CHR ''='' # v
        \<and> list_all is_space indent \<and> list_all2 keyAtom key kk \<and> list_all is_space ws
        \<and> list_all (\<lambda>x. \<not> is_line_terminator x) (dropWhile (\<lambda>x. x \<noteq> CHR ''#'') v)"
    by blast
next
  assume "\<exists>indent kk ws v. line = indent @ kk @ ws @ CHR ''='' # v
        \<and> list_all is_space indent \<and> list_all2 keyAtom key kk \<and> list_all is_space ws
        \<and> list_all (\<lambda>x. \<not> is_line_terminator x) (dropWhile (\<lambda>x. x \<noteq> CHR ''#'') v)"
  then obtain indent kk ws v where l: "line = indent @ kk @ ws @ CHR ''='' # v"
    and ind: "list_all is_space indent" and kk: "list_all2 keyAtom key kk"
    and ws: "list_all is_space ws"
    and lt: "list_all (\<lambda>x. \<not> is_line_terminator x) (dropWhile (\<lambda>x. x \<noteq> CHR ''#'') v)"
    by blast
  have len: "length indent \<le> length (takeWhile is_space line)"
    using l ind by (rule prefix_spaces_length)
  have lk: "length kk = length key"
    using kk by (simp add: list_all2_lengthD)
  have "keyRe_rest (ws @ CHR ''='' # v) = Some (dropWhile (\<lambda>x. x \<noteq> CHR ''#'') v)"
    unfolding keyRe_rest_iff using ws lt by blast
  then have at: "keyRe_at key line (length indent)
                   = Some (indent, dropWhile (\<lambda>x. x \<noteq> CHR ''#'') v)"
    using kk lk by (simp add: keyRe_at_def l)
  show "\<exists>m. keyRe key line = Some m"
  proof (cases "keyRe key line")
    case None
    then have "keyRe_at key line (length indent) = None"
      unfolding keyRe_def using len by (rule keyRe_from_None)
    with at show ?thesis by simp
  next
    case (Some m)
    then show ?thesis by blast
  qed
qed

section \<open>The walk as a sequence of patcher calls\<close>

lemma applyCalls_None: "applyCalls None cs = None"
  by (induction cs) (simp_all add: applyCalls_def applyCall_def)

lemma applyCalls_Cons: "applyCalls st (c # cs) = applyCalls (applyCall st c) cs"
  by (simp add: applyCalls_def)

lemma applyCalls_append: "applyCalls st (xs @ ys) = applyCalls (applyCalls st xs) ys"
  by (simp add: applyCalls_def)

lemma applyCalls_flag:
  "applyCalls (Some (t, b)) cs
     = (case applyCalls (Some (t, False)) cs of None \<Rightarrow> None | Some (t', p) \<Rightarrow> Some (t', b \<or> p))"
proof (induction cs arbitrary: t b)
  case Nil
  show ?case by (simp add: applyCalls_def)
next
  case (Cons c cs)
  show ?case
  proof (cases "patchScalarInSection t (fst c) (fst (snd c)) (snd (snd c))")
    case None
    then show ?thesis
      by (simp add: applyCalls_Cons applyCall_def applyCalls_None)
  next
    case (Some r)
    obtain t' p' where r: "r = (t', p')" by (cases r)
    have "applyCalls (Some (t, b)) (c # cs) = applyCalls (Some (t', b \<or> p')) cs"
      using Some r by (simp add: applyCalls_Cons applyCall_def)
    also have "\<dots> = (case applyCalls (Some (t', False)) cs of None \<Rightarrow> None
                       | Some (t'', q) \<Rightarrow> Some (t'', (b \<or> p') \<or> q))"
      by (rule Cons.IH)
    finally have lhs: "applyCalls (Some (t, b)) (c # cs)
        = (case applyCalls (Some (t', False)) cs of None \<Rightarrow> None
           | Some (t'', q) \<Rightarrow> Some (t'', (b \<or> p') \<or> q))" .
    have "applyCalls (Some (t, False)) (c # cs) = applyCalls (Some (t', p')) cs"
      using Some r by (simp add: applyCalls_Cons applyCall_def)
    also have "\<dots> = (case applyCalls (Some (t', False)) cs of None \<Rightarrow> None
                       | Some (t'', q) \<Rightarrow> Some (t'', p' \<or> q))"
      by (rule Cons.IH)
    finally have rhs: "applyCalls (Some (t, False)) (c # cs)
        = (case applyCalls (Some (t', False)) cs of None \<Rightarrow> None
           | Some (t'', q) \<Rightarrow> Some (t'', p' \<or> q))" .
    show ?thesis
      unfolding lhs rhs by (cases "applyCalls (Some (t', False)) cs") auto
  qed
qed


lemma walkPatch_calls:
  "walkPatch numstr buf oldObj newObj pathAcc
     = applyCalls (Some (buf, False)) (patchCalls numstr oldObj newObj pathAcc)"
proof (induction numstr buf oldObj newObj pathAcc rule: walkPatch.induct)
  case (1 numstr buf oldObj newObj pathAcc)
  define stepW :: "string \<Rightarrow> (string \<times> bool) option \<Rightarrow> (string \<times> bool) option" where
    "stepW = (\<lambda>k st.
        case st of
          None \<Rightarrow> None
        | Some (outText, patchedAny) \<Rightarrow>
            (let oldVal = map_of oldObj k;
                 newVal = map_of newObj k;
                 newScalar = scalarOf numstr newVal;
                 oldScalar = scalarOf numstr oldVal
             in if newScalar \<noteq> None \<and> oldScalar \<noteq> None then
                  (case patchScalarInSection outText pathAcc k (the newScalar) of
                     None \<Rightarrow> None
                   | Some (t, patched) \<Rightarrow> Some (t, patchedAny \<or> patched))
                else
                  (case oldVal of
                     Some (JObj oldTab) \<Rightarrow>
                       (case newVal of
                          Some (JObj newTab) \<Rightarrow>
                            (case walkPatch numstr outText oldTab newTab (pathAcc @ [k]) of
                               None \<Rightarrow> None
                             | Some (t, patched) \<Rightarrow> Some (t, patchedAny \<or> patched))
                        | _ \<Rightarrow> Some (outText, patchedAny))
                   | _ \<Rightarrow> Some (outText, patchedAny))))"
  define perK :: "string \<Rightarrow> (string list \<times> string \<times> string) list" where
    "perK = (\<lambda>k.
        let oldVal = map_of oldObj k;
            newVal = map_of newObj k;
            newScalar = scalarOf numstr newVal;
            oldScalar = scalarOf numstr oldVal
        in if newScalar \<noteq> None \<and> oldScalar \<noteq> None then [(pathAcc, k, the newScalar)]
           else
             (case oldVal of
                Some (JObj oldTab) \<Rightarrow>
                  (case newVal of
                     Some (JObj newTab) \<Rightarrow> patchCalls numstr oldTab newTab (pathAcc @ [k])
                   | _ \<Rightarrow> [])
              | _ \<Rightarrow> []))"
  have w: "walkPatch numstr buf oldObj newObj pathAcc
             = fold stepW (keySet oldObj newObj) (Some (buf, False))"
    unfolding stepW_def by (subst walkPatch.simps) (rule refl)
  have c: "patchCalls numstr oldObj newObj pathAcc = concat (map perK (keySet oldObj newObj))"
    unfolding perK_def by (subst patchCalls.simps) (rule refl)
  have step: "stepW k st = applyCalls st (perK k)" if k: "k \<in> set (keySet oldObj newObj)" for k st
  proof (cases st)
    case None
    then show ?thesis by (simp add: stepW_def applyCalls_None)
  next
    case (Some tb)
    obtain t b where tb: "tb = (t, b)" by (cases tb)
    show ?thesis
    proof (cases "scalarOf numstr (map_of newObj k) \<noteq> None \<and> scalarOf numstr (map_of oldObj k) \<noteq> None")
      case True
      then show ?thesis
        using Some tb
        by (simp add: stepW_def perK_def applyCalls_def applyCall_def Let_def)
    next
      case False
      show ?thesis
      proof (cases "\<exists>ot nt. map_of oldObj k = Some (JObj ot) \<and> map_of newObj k = Some (JObj nt)")
        case True
        then obtain ot nt where o: "map_of oldObj k = Some (JObj ot)"
          and n: "map_of newObj k = Some (JObj nt)" by blast
        have ih: "walkPatch numstr t ot nt (pathAcc @ [k])
                    = applyCalls (Some (t, False)) (patchCalls numstr ot nt (pathAcc @ [k]))"
          using "1.IH" [OF k refl refl refl refl False o refl n refl] .
        have "stepW k st = (case walkPatch numstr t ot nt (pathAcc @ [k]) of
                              None \<Rightarrow> None | Some (t', p) \<Rightarrow> Some (t', b \<or> p))"
          using Some tb o n by (simp add: stepW_def Let_def scalarOf_def)
        also have "\<dots> = applyCalls (Some (t, b)) (patchCalls numstr ot nt (pathAcc @ [k]))"
          unfolding ih by (rule applyCalls_flag [symmetric])
        also have "patchCalls numstr ot nt (pathAcc @ [k]) = perK k"
          using o n by (simp add: perK_def Let_def scalarOf_def)
        finally show ?thesis using Some tb by simp
      next
        case no: False
        have "stepW k st = st"
          using Some tb False no
          by (auto simp: stepW_def Let_def split: option.splits json.splits)
        moreover have "perK k = []"
          using False no
          by (auto simp: perK_def Let_def split: option.splits json.splits)
        ultimately show ?thesis by (simp add: applyCalls_def)
      qed
    qed
  qed
  have fold_eq: "fold stepW ks st = applyCalls st (concat (map perK ks))"
    if "set ks \<subseteq> set (keySet oldObj newObj)" for ks st
    using that
  proof (induction ks arbitrary: st)
    case Nil
    show ?case by (simp add: applyCalls_def)
  next
    case (Cons k ks)
    then show ?case
      by (simp add: step applyCalls_append)
  qed
  show ?case
    unfolding w c by (rule fold_eq) simp
qed


lemma patchCalls_path_length:
  "c \<in> set (patchCalls numstr oldObj newObj pathAcc) \<Longrightarrow> length pathAcc \<le> length (fst c)"
proof (induction numstr oldObj newObj pathAcc arbitrary: c rule: patchCalls.induct)
  case (1 numstr oldObj newObj pathAcc)
  from "1.prems" obtain k where k: "k \<in> set (keySet oldObj newObj)"
    and c: "c \<in> set (let oldVal = map_of oldObj k;
            newVal = map_of newObj k;
            newScalar = scalarOf numstr newVal;
            oldScalar = scalarOf numstr oldVal
        in if newScalar \<noteq> None \<and> oldScalar \<noteq> None then [(pathAcc, k, the newScalar)]
           else
             (case oldVal of
                Some (JObj oldTab) \<Rightarrow>
                  (case newVal of
                     Some (JObj newTab) \<Rightarrow> patchCalls numstr oldTab newTab (pathAcc @ [k])
                   | _ \<Rightarrow> [])
              | _ \<Rightarrow> []))"
    by (subst (asm) patchCalls.simps) auto
  show ?case
  proof (cases "scalarOf numstr (map_of newObj k) \<noteq> None \<and> scalarOf numstr (map_of oldObj k) \<noteq> None")
    case True
    with c show ?thesis by (simp add: Let_def)
  next
    case False
    show ?thesis
    proof (cases "\<exists>ot nt. map_of oldObj k = Some (JObj ot) \<and> map_of newObj k = Some (JObj nt)")
      case True
      then obtain ot nt where o: "map_of oldObj k = Some (JObj ot)"
        and n: "map_of newObj k = Some (JObj nt)" by blast
      from c o n have "c \<in> set (patchCalls numstr ot nt (pathAcc @ [k]))"
        by (simp add: Let_def scalarOf_def)
      then have "length (pathAcc @ [k]) \<le> length (fst c)"
        using "1.IH" [OF k refl refl refl refl False o refl n refl] by blast
      then show ?thesis by simp
    next
      case no: False
      with c False have False
        by (auto simp: Let_def split: option.splits json.splits)
      then show ?thesis ..
    qed
  qed
qed

lemma keySet_set: "set (keySet oldObj newObj) = fst ` set oldObj \<union> fst ` set newObj"
  by (auto simp: keySet_def)

lemma scalarOf_key:
  assumes "scalarOf numstr (map_of kvs k) \<noteq> None"
  shows "k \<in> fst ` set kvs"
proof (cases "map_of kvs k")
  case None
  with assms show ?thesis by (simp add: scalarOf_def)
next
  case (Some v)
  then have "(k, v) \<in> set kvs" by (rule map_of_SomeD)
  then show ?thesis by force
qed

lemma patchCalls_here:
  "(pathAcc, k, literal) \<in> set (patchCalls numstr oldObj newObj pathAcc)
     \<longleftrightarrow> scalarOf numstr (map_of oldObj k) \<noteq> None
         \<and> scalarOf numstr (map_of newObj k) = Some literal"
proof
  assume m: "(pathAcc, k, literal) \<in> set (patchCalls numstr oldObj newObj pathAcc)"
  then obtain k' where k': "k' \<in> set (keySet oldObj newObj)"
    and c: "(pathAcc, k, literal) \<in> set (let oldVal = map_of oldObj k';
            newVal = map_of newObj k';
            newScalar = scalarOf numstr newVal;
            oldScalar = scalarOf numstr oldVal
        in if newScalar \<noteq> None \<and> oldScalar \<noteq> None then [(pathAcc, k', the newScalar)]
           else
             (case oldVal of
                Some (JObj oldTab) \<Rightarrow>
                  (case newVal of
                     Some (JObj newTab) \<Rightarrow> patchCalls numstr oldTab newTab (pathAcc @ [k'])
                   | _ \<Rightarrow> [])
              | _ \<Rightarrow> []))"
    by (subst (asm) patchCalls.simps) auto
  show "scalarOf numstr (map_of oldObj k) \<noteq> None \<and> scalarOf numstr (map_of newObj k) = Some literal"
  proof (cases "scalarOf numstr (map_of newObj k') \<noteq> None \<and> scalarOf numstr (map_of oldObj k') \<noteq> None")
    case True
    with c show ?thesis by (auto simp: Let_def)
  next
    case False
    show ?thesis
    proof (cases "\<exists>ot nt. map_of oldObj k' = Some (JObj ot) \<and> map_of newObj k' = Some (JObj nt)")
      case True
      then obtain ot nt where o: "map_of oldObj k' = Some (JObj ot)"
        and n: "map_of newObj k' = Some (JObj nt)" by blast
      from c o n have "(pathAcc, k, literal) \<in> set (patchCalls numstr ot nt (pathAcc @ [k']))"
        by (simp add: Let_def scalarOf_def)
      from patchCalls_path_length [OF this] have False by simp
      then show ?thesis ..
    next
      case no: False
      with c False have False
        by (auto simp: Let_def split: option.splits json.splits)
      then show ?thesis ..
    qed
  qed
next
  assume a: "scalarOf numstr (map_of oldObj k) \<noteq> None \<and> scalarOf numstr (map_of newObj k) = Some literal"
  then have "k \<in> set (keySet oldObj newObj)"
    using scalarOf_key [of numstr oldObj k] by (simp add: keySet_set)
  then show "(pathAcc, k, literal) \<in> set (patchCalls numstr oldObj newObj pathAcc)"
    using a by (subst patchCalls.simps) (auto simp: Let_def intro!: bexI [of _ k])
qed

text \<open>
  Claim C3 says that a patch is attempted for a key that is scalar in both trees if and
  only if its two literals differ.  \<^verbatim>\<open>walkPatch\<close> never compares the literals: with the
  same tree on both sides it still calls the patcher for the key \<open>a\<close>, and the call
  shows in the text, which comes back with the spacing of the patcher.
\<close>

theorem differ_patches_equal_literals_counterexample:
  "scalarOf String_int (map_of [(''a'', JNum (Finite 1))] ''a'')
     = scalarOf String_int (map_of [(''a'', JNum (Finite 1))] ''a'')
   \<and> patchCalls String_int [(''a'', JNum (Finite 1))] [(''a'', JNum (Finite 1))] []
       = [([], ''a'', ''1'')]
   \<and> walkPatch String_int ''a=1'' [(''a'', JNum (Finite 1))] [(''a'', JNum (Finite 1))] []
       = Some (''a = 1'', True)"
  by code_simp

text \<open>
  Claim C3, as the code has it.  The walk is the sequence of its patcher calls, and at
  the current section path there is a call for the key \<open>k\<close> with the literal \<open>literal\<close>
  if and only if \<open>k\<close> is scalar in the old tree and scalar in the new tree with that
  literal, whether the two literals differ or not.
\<close>

theorem differ_patches_every_common_scalar:
  "walkPatch numstr buf oldObj newObj pathAcc
     = applyCalls (Some (buf, False)) (patchCalls numstr oldObj newObj pathAcc)
   \<and> ((pathAcc, k, literal) \<in> set (patchCalls numstr oldObj newObj pathAcc)
        \<longleftrightarrow> scalarOf numstr (map_of oldObj k) \<noteq> None
            \<and> scalarOf numstr (map_of newObj k) = Some literal)"
  using walkPatch_calls [of numstr buf oldObj newObj pathAcc]
    patchCalls_here [of pathAcc k literal numstr oldObj newObj]
  by (rule conjI)












end
